theory Spec2Isabelle
  imports Complex_Main "HOL-Library.AList"
begin

section \<open>The distributed experience replay buffer\<close>

text \<open>
  A shallow embedding of \<^verbatim>\<open>rl_coach/memories/non_episodic/distributed_experience_replay.py\<close>.
  The buffer keeps no transitions of its own: every method is a sequence of commands sent over
  \<^verbatim>\<open>self.redis_connection\<close> to a Redis server, so the server is the state that is
  passed through every definition below and returned by it.
\<close>

subsection \<open>Errors and data\<close>

text \<open>
  The exceptions that the methods can end with. \<open>ValueError\<close> is raised by the source itself;
  \<open>KeyError\<close> by subscripting a Python dict with a missing key; \<open>TypeError\<close> by
  \<^verbatim>\<open>pickle.loads(None)\<close>; \<open>UnpicklingError\<close> by \<^verbatim>\<open>pickle.loads\<close> on bytes that are
  no pickle.
\<close>

datatype error = ValueError | KeyError | TypeError | UnpicklingError

text \<open>
  Modelled from the spec: the enum \<^verbatim>\<open>MemoryGranularity\<close> of
  \<^verbatim>\<open>rl_coach.memories.memory\<close>, which is imported by the source and not part of it. The
  source names its member \<^verbatim>\<open>Transitions\<close>, the granularity the spec gives the capacity;
  \<open>Episodes\<close> is the other granularity that the docstring of \<^verbatim>\<open>__init__\<close> mentions.
\<close>

datatype MemoryGranularity = Transitions | Episodes

text \<open>
  Modelled from the spec: the class \<^verbatim>\<open>Transition\<close> of \<^verbatim>\<open>rl_coach.core_types\<close>, which
  is imported by the source and not part of it. The spec lists its fields (state, action,
  reward, next state, terminal flag); the buffer reads only \<open>reward\<close>.
\<close>

record Transition =
  state :: "real list"
  action :: int
  reward :: real
  next_state :: "real list"
  game_over :: bool

text \<open>
  \<^verbatim>\<open>pickle.dumps\<close> and \<^verbatim>\<open>pickle.loads\<close> are library functions: they are parameters of the
  model. \<open>'b\<close> is the type of the byte strings they produce and read.
\<close>

record 'b pickle =
  dumps :: "Transition \<Rightarrow> 'b"
  loads :: "'b \<Rightarrow> error + Transition"

text \<open>The fields that \<^verbatim>\<open>__init__\<close> sets.\<close>

record DistributedExperienceReplay =
  max_size :: "MemoryGranularity \<times> int"
  allow_duplicates_in_batch_sampling :: bool
  db :: nat

definition init ::
  "MemoryGranularity \<times> int \<Rightarrow> bool \<Rightarrow> nat \<Rightarrow> error + DistributedExperienceReplay" where
  "init max_size' allow_duplicates db' =
     (if fst max_size' \<noteq> Transitions then Inl ValueError
      else Inr \<lparr>max_size = max_size',
                allow_duplicates_in_batch_sampling = allow_duplicates,
                db = db'\<rparr>)"

subsection \<open>The Redis server\<close>

text \<open>
  A Redis server holds numbered databases, each a dictionary from keys to values. A database is
  an association list here, so that \<^verbatim>\<open>RANDOMKEY\<close> can pick an entry by position; the
  commands keep its keys distinct. The connection is opened on one database
  (\<^verbatim>\<open>redis.Redis(redis_ip, redis_port, self.db)\<close>), which is the first argument of the
  commands that work on the selected database. Every command returns its reply and the server
  after it, also the commands that only read.
\<close>

type_synonym key = string
type_synonym 'b database = "(key \<times> 'b) list"
type_synonym 'b redis = "nat \<Rightarrow> 'b database"

text \<open>
  The client turns a key that is neither bytes nor a number into its \<^verbatim>\<open>str()\<close> (this is how
  the \<^verbatim>\<open>UUID\<close> object of \<^verbatim>\<open>store\<close> becomes a key), so Python's \<^verbatim>\<open>None\<close> is sent as the
  key \<^verbatim>\<open>None\<close>.
\<close>

fun encode :: "key option \<Rightarrow> key" where
  "encode None = ''None''"
| "encode (Some k) = k"

definition redis_set :: "nat \<Rightarrow> key \<Rightarrow> 'b \<Rightarrow> 'b redis \<Rightarrow> bool \<times> 'b redis" where
  "redis_set d k v srv = (True, srv(d := AList.update k v (srv d)))"

definition redis_get :: "nat \<Rightarrow> key \<Rightarrow> 'b redis \<Rightarrow> 'b option \<times> 'b redis" where
  "redis_get d k srv = (map_of (srv d) k, srv)"

text \<open>\<^verbatim>\<open>DEL\<close> replies with the number of keys it removed; a missing key is not an error.\<close>

definition redis_delete :: "nat \<Rightarrow> key \<Rightarrow> 'b redis \<Rightarrow> nat \<times> 'b redis" where
  "redis_delete d k srv =
     ((if k \<in> fst ` set (srv d) then 1 else 0), srv(d := AList.delete k (srv d)))"

text \<open>
  \<^verbatim>\<open>RANDOMKEY\<close> replies with one of the keys of the selected database, and with nothing
  (\<^verbatim>\<open>None\<close>) when the database is empty. The random choice is the argument \<open>r\<close>.
\<close>

definition redis_randomkey :: "nat \<Rightarrow> nat \<Rightarrow> 'b redis \<Rightarrow> key option \<times> 'b redis" where
  "redis_randomkey r d srv =
     ((if srv d = [] then None else Some (fst (srv d ! (r mod length (srv d))))), srv)"


text \<open>
  \<^verbatim>\<open>INFO keyspace\<close> has one line \<^verbatim>\<open>dbN:keys=...\<close> for every database that holds at least
  one key, and no line for an empty database; the client returns the lines as a dict. The model
  keeps the \<^verbatim>\<open>keys\<close> entry of each line.
\<close>

definition redis_info_keyspace :: "'b redis \<Rightarrow> (nat \<rightharpoonup> nat) \<times> 'b redis" where
  "redis_info_keyspace srv =
     ((\<lambda>j. if srv j = [] then None else Some (length (srv j))), srv)"

text \<open>\<^verbatim>\<open>FLUSHALL\<close> deletes the keys of all databases, not only of the selected one.\<close>

definition redis_flushall :: "'b redis \<Rightarrow> bool \<times> 'b redis" where
  "redis_flushall srv = (True, (\<lambda>j. []))"

subsection \<open>The methods\<close>

text \<open>
  \<^verbatim>\<open>self.redis_connection.info(section='keyspace')['db{}'.format(self.db)]['keys']\<close>: the
  subscript with the database's name raises \<open>KeyError\<close> when the dict has no such entry.
\<close>

definition num_transitions ::
  "DistributedExperienceReplay \<Rightarrow> 'b redis \<Rightarrow> (error + int) \<times> 'b redis" where
  "num_transitions self srv =
     (case redis_info_keyspace srv of (keyspace, srv1) \<Rightarrow>
        (case keyspace (db self) of
           None \<Rightarrow> (Inl KeyError, srv1)
         | Some n \<Rightarrow> (Inr (int n), srv1)))"

definition length_er ::
  "DistributedExperienceReplay \<Rightarrow> 'b redis \<Rightarrow> (error + int) \<times> 'b redis" where
  "length_er self srv = num_transitions self srv"

text \<open>
  The loops of \<^verbatim>\<open>sample\<close>. \<open>transition_idx\<close> is the Python dict of the source, from the
  key that \<^verbatim>\<open>randomkey()\<close> returned to the unpickled transition, in insertion order; its
  \<^verbatim>\<open>len\<close> is the number of its keys. \<open>rnd i\<close> is the random choice of the \<open>i\<close>-th draw.
  Neither loop has a bound on its iterations: a run that never leaves the loop is \<open>None\<close>.
\<close>

type_synonym transition_dict = "(key option \<times> Transition) list"

partial_function (option) sample_with_duplicates ::
  "'b pickle \<Rightarrow> DistributedExperienceReplay \<Rightarrow> (nat \<Rightarrow> nat) \<Rightarrow> nat \<Rightarrow> int \<Rightarrow>
   transition_dict \<Rightarrow> 'b redis \<Rightarrow> ((error + transition_dict) \<times> 'b redis) option" where
  "sample_with_duplicates P self rnd i sz transition_idx srv =
     (if int (length transition_idx) \<noteq> sz then
        (case redis_randomkey (rnd i) (db self) srv of (key, srv1) \<Rightarrow>
           (case redis_get (db self) (encode key) srv1 of (blob, srv2) \<Rightarrow>
              (case blob of
                 None \<Rightarrow> Some (Inl TypeError, srv2)
               | Some b \<Rightarrow>
                   (case loads P b of
                      Inl e \<Rightarrow> Some (Inl e, srv2)
                    | Inr t \<Rightarrow>
                        sample_with_duplicates P self rnd (Suc i) sz
                          (AList.update key t transition_idx) srv2))))
      else Some (Inr transition_idx, srv))"

partial_function (option) sample_without_duplicates ::
  "'b pickle \<Rightarrow> DistributedExperienceReplay \<Rightarrow> (nat \<Rightarrow> nat) \<Rightarrow> nat \<Rightarrow> int \<Rightarrow>
   transition_dict \<Rightarrow> 'b redis \<Rightarrow> ((error + transition_dict) \<times> 'b redis) option" where
  "sample_without_duplicates P self rnd i sz transition_idx srv =
     (if int (length transition_idx) \<noteq> sz then
        (case redis_randomkey (rnd i) (db self) srv of (key, srv1) \<Rightarrow>
           if key \<in> fst ` set transition_idx then
             sample_without_duplicates P self rnd (Suc i) sz transition_idx srv1
           else
             (case redis_get (db self) (encode key) srv1 of (blob, srv2) \<Rightarrow>
                (case blob of
                   None \<Rightarrow> Some (Inl TypeError, srv2)
                 | Some b \<Rightarrow>
                     (case loads P b of
                        Inl e \<Rightarrow> Some (Inl e, srv2)
                      | Inr t \<Rightarrow>
                          sample_without_duplicates P self rnd (Suc i) sz
                            (AList.update key t transition_idx) srv2))))
      else Some (Inr transition_idx, srv))"

text \<open>\<^verbatim>\<open>batch = transition_idx.values()\<close>\<close>

definition values_of :: "transition_dict \<Rightarrow> Transition list" where
  "values_of transition_idx = map snd transition_idx"

definition sample ::
  "'b pickle \<Rightarrow> DistributedExperienceReplay \<Rightarrow> (nat \<Rightarrow> nat) \<Rightarrow> int \<Rightarrow> 'b redis \<Rightarrow>
   ((error + Transition list) \<times> 'b redis) option" where
  "sample P self rnd sz srv =
     map_option (\<lambda>(r, srv'). (map_sum id values_of r, srv'))
       (if allow_duplicates_in_batch_sampling self then
          sample_with_duplicates P self rnd 0 sz [] srv
        else
          (case num_transitions self srv of
             (Inl e, srv1) \<Rightarrow> Some (Inl e, srv1)
           | (Inr n, srv1) \<Rightarrow>
               if n \<ge> sz then sample_without_duplicates P self rnd 0 sz [] srv1
               else
                 (case num_transitions self srv1 of
                    (Inl e, srv2) \<Rightarrow> Some (Inl e, srv2)
                  | (Inr n', srv2) \<Rightarrow> Some (Inl ValueError, srv2))))"

text \<open>
  The loop of \<^verbatim>\<open>_enforce_max_length\<close>:
  \<^verbatim>\<open>while size != 0 and self.num_transitions() > size: delete(randomkey())\<close>.
\<close>

function enforce_loop ::
  "DistributedExperienceReplay \<Rightarrow> (nat \<Rightarrow> nat) \<Rightarrow> nat \<Rightarrow> int \<Rightarrow> 'b redis \<Rightarrow>
   (error + unit) \<times> 'b redis" where
  "enforce_loop self rnd i sz srv =
     (if sz \<noteq> 0 then
        (case num_transitions self srv of
           (Inl e, srv1) \<Rightarrow> (Inl e, srv1)
         | (Inr n, srv1) \<Rightarrow>
             if n > sz then
               (case redis_randomkey (rnd i) (db self) srv1 of (key, srv2) \<Rightarrow>
                  (case redis_delete (db self) (encode key) srv2 of (removed, srv3) \<Rightarrow>
                     enforce_loop self rnd (Suc i) sz srv3))
             else (Inr (), srv1))
      else (Inr (), srv))"
  by pat_completeness auto
termination
proof (relation "measure (\<lambda>(self, rnd, i, sz, srv). length (srv (db self)))")
  show "wf (measure (\<lambda>(self, rnd, i, sz, srv). length (srv (db self))))"
    by simp
next
  fix self :: DistributedExperienceReplay and rnd :: "nat \<Rightarrow> nat" and i :: nat and sz :: int
    and srv srv1 srv2 srv3 :: "'b redis" and x y n key removed
  assume run: "(x, srv1) = num_transitions self srv" "x = Inr n"
    "(key, srv2) = redis_randomkey (rnd i) (db self) srv1"
    "(removed, srv3) = redis_delete (db self) (encode key) srv2"
  have shorter: "length (AList.delete k al) < length al" if "k \<in> fst ` set al"
    for k :: key and al :: "'b database"
    using that by (induction al) (force simp: less_Suc_eq_le AList.length_delete_le)+
  from run have "srv1 = srv" "srv (db self) \<noteq> []"
    by (auto simp: num_transitions_def redis_info_keyspace_def split: if_splits)
  with run have "srv2 = srv" "encode key \<in> fst ` set (srv (db self))"
    by (auto simp: redis_randomkey_def)
  with run have "length (srv3 (db self)) < length (srv (db self))"
    by (auto simp: redis_delete_def intro: shorter)
  then show "((self, rnd, Suc i, sz, srv3), (self, rnd, i, sz, srv))
      \<in> measure (\<lambda>(self, rnd, i, sz, srv). length (srv (db self)))"
    by simp
qed

declare enforce_loop.simps [simp del]

definition enforce_max_length ::
  "DistributedExperienceReplay \<Rightarrow> (nat \<Rightarrow> nat) \<Rightarrow> 'b redis \<Rightarrow> (error + unit) \<times> 'b redis" where
  "enforce_max_length self rnd srv =
     (case max_size self of (granularity, sz) \<Rightarrow>
        if granularity = Transitions then enforce_loop self rnd 0 sz srv
        else (Inl ValueError, srv))"

text \<open>
  \<^verbatim>\<open>store\<close>: the key is \<^verbatim>\<open>uuid.uuid4()\<close>, a random value, so it is an argument here,
  and \<open>rnd\<close> gives the random choices of the eviction that follows.
\<close>

definition store ::
  "'b pickle \<Rightarrow> DistributedExperienceReplay \<Rightarrow> (nat \<Rightarrow> nat) \<Rightarrow> key \<Rightarrow> Transition \<Rightarrow>
   'b redis \<Rightarrow> (error + unit) \<times> 'b redis" where
  "store P self rnd uuid4 transition srv =
     (case redis_set (db self) uuid4 (dumps P transition) srv of (ok, srv1) \<Rightarrow>
        enforce_max_length self rnd srv1)"

text \<open>
  The methods from here on start with \<^verbatim>\<open>import pytest; pytest.set_trace()\<close>, a debugger
  breakpoint; the model is the method as it runs once the debugger continues.
  \<^verbatim>\<open>redis_connection.get\<close> returns \<^verbatim>\<open>None\<close> for a key that is not there, and
  \<^verbatim>\<open>pickle.loads(None)\<close> raises \<open>TypeError\<close>.
\<close>

definition get_transition ::
  "'b pickle \<Rightarrow> DistributedExperienceReplay \<Rightarrow> key \<Rightarrow> 'b redis \<Rightarrow>
   (error + Transition) \<times> 'b redis" where
  "get_transition P self transition_index srv =
     (case redis_get (db self) transition_index srv of (blob, srv1) \<Rightarrow>
        (case blob of
           None \<Rightarrow> (Inl TypeError, srv1)
         | Some b \<Rightarrow>
             (case loads P b of
                Inl e \<Rightarrow> (Inl e, srv1)
              | Inr t \<Rightarrow> (Inr t, srv1))))"

definition remove_transition ::
  "DistributedExperienceReplay \<Rightarrow> key \<Rightarrow> 'b redis \<Rightarrow> (error + unit) \<times> 'b redis" where
  "remove_transition self transition_index srv =
     (case redis_delete (db self) transition_index srv of (removed, srv1) \<Rightarrow> (Inr (), srv1))"

definition get ::
  "'b pickle \<Rightarrow> DistributedExperienceReplay \<Rightarrow> key \<Rightarrow> 'b redis \<Rightarrow>
   (error + Transition) \<times> 'b redis" where
  "get P self transition_index srv = get_transition P self transition_index srv"

definition remove ::
  "DistributedExperienceReplay \<Rightarrow> key \<Rightarrow> 'b redis \<Rightarrow> (error + unit) \<times> 'b redis" where
  "remove self transition_index srv = remove_transition self transition_index srv"

definition clean ::
  "DistributedExperienceReplay \<Rightarrow> 'b redis \<Rightarrow> (error + unit) \<times> 'b redis" where
  "clean self srv = (case redis_flushall srv of (ok, srv1) \<Rightarrow> (Inr (), srv1))"





subsection \<open>Runs and example values\<close>

text \<open>Storing a list of transitions one at a time; the run stops at the first exception.\<close>

fun store_all ::
  "'b pickle \<Rightarrow> DistributedExperienceReplay \<Rightarrow> ((nat \<Rightarrow> nat) \<times> key \<times> Transition) list \<Rightarrow>
   'b redis \<Rightarrow> (error + unit) \<times> 'b redis" where
  "store_all P self [] srv = (Inr (), srv)"
| "store_all P self ((rnd, uuid4, transition) # rest) srv =
     (case store P self rnd uuid4 transition srv of
        (Inl e, srv1) \<Rightarrow> (Inl e, srv1)
      | (Inr u, srv1) \<Rightarrow> store_all P self rest srv1)"

text \<open>The keys that the first \<open>m\<close> calls of \<^verbatim>\<open>randomkey()\<close> return on the database \<open>al\<close>.\<close>

definition draws :: "(nat \<Rightarrow> nat) \<Rightarrow> 'b database \<Rightarrow> nat \<Rightarrow> key list" where
  "draws rnd al m = map (\<lambda>i. fst (al ! (rnd i mod length al))) [0..<m]"

text \<open>
  What \<open>transition_idx\<close> holds while a sampling loop runs on the database \<open>al\<close>: keys of
  \<open>al\<close>, each once, each with the transition unpickled from its value.
\<close>

definition collected :: "'b pickle \<Rightarrow> 'b database \<Rightarrow> transition_dict \<Rightarrow> bool" where
  "collected P al idx \<longleftrightarrow>
     distinct (map fst idx) \<and>
     (\<forall>(ko, t) \<in> set idx. \<exists>k b. ko = Some k \<and> map_of al k = Some b \<and> loads P b = Inr t)"

text \<open>
  Values for the examples: a pickle whose byte string for a transition is the transition
  itself, a transition with a given reward, a server with no keys, and a buffer on database 0.
\<close>

definition example_pickle :: "Transition pickle" where
  "example_pickle = \<lparr>dumps = (\<lambda>t. t), loads = Inr\<rparr>"

definition step :: "real \<Rightarrow> Transition" where
  "step r = \<lparr>state = [], action = 0, reward = r, next_state = [], game_over = False\<rparr>"

definition empty_server :: "Transition redis" where
  "empty_server = (\<lambda>j. [])"

definition buffer :: "int \<Rightarrow> bool \<Rightarrow> DistributedExperienceReplay" where
  "buffer capacity duplicates =
     \<lparr>max_size = (Transitions, capacity),
      allow_duplicates_in_batch_sampling = duplicates,
      db = 0\<rparr>"

definition other_server :: "Transition redis" where
  "other_server = empty_server(1 := [(''a'', step 1)])"

definition one_server :: "Transition redis" where
  "one_server = empty_server(0 := [(''a'', step 1)])"

definition two_server :: "Transition redis" where
  "two_server = empty_server(0 := [(''a'', step 1), (''b'', step 2)])"

text \<open>A source of random choices: the \<open>i\<close>-th choice is \<open>i\<close>.\<close>

definition in_turn :: "nat \<Rightarrow> nat" where
  "in_turn i = i"

definition five_stores :: "((nat \<Rightarrow> nat) \<times> key \<times> Transition) list" where
  "five_stores =
     [(in_turn, ''a'', step 1), (in_turn, ''b'', step 2), (in_turn, ''c'', step 3),
      (in_turn, ''d'', step 4), (in_turn, ''e'', step 5)]"

section \<open>Properties\<close>

subsection \<open>The Redis commands\<close>

lemma randomkey_eq:
  "redis_randomkey r d srv =
     ((if srv d = [] then None else Some (fst (srv d ! (r mod length (srv d))))), srv)"
  by (simp add: redis_randomkey_def)

lemma drawn_key_live:
  "al \<noteq> [] \<Longrightarrow> fst (al ! (r mod length al)) \<in> fst ` set al"
  by simp

lemma live_key_blob: "k \<in> fst ` set al \<Longrightarrow> \<exists>b. map_of al k = Some b"
  by (cases "map_of al k") (auto simp: map_of_eq_None_iff)

lemma num_transitions_eq:
  "num_transitions self srv =
     (if srv (db self) = [] then (Inl KeyError, srv)
      else (Inr (int (length (srv (db self)))), srv))"
  by (simp add: num_transitions_def redis_info_keyspace_def)

subsection \<open>The sampling loops\<close>

lemma sample_with_duplicates_invariant:
  assumes run: "sample_with_duplicates P self rnd i sz idx srv = Some res"
  shows "(case ((((((P, self), rnd), i), sz), idx), srv) of
           ((((((P, self), rnd), i), sz), idx), srv) \<Rightarrow> \<lambda>res.
     \<forall>I. I idx \<longrightarrow>
       (\<forall>idx k b t. I idx \<longrightarrow> int (length idx) \<noteq> sz \<longrightarrow> map_of (srv (db self)) k = Some b \<longrightarrow>
           loads P b = Inr t \<longrightarrow> I (AList.update (Some k) t idx)) \<longrightarrow>
       snd res = srv \<and> (\<forall>idx'. fst res = Inr idx' \<longrightarrow> I idx' \<and> int (length idx') = sz) \<and>
       (\<forall>e. fst res = Inl e \<longrightarrow> (srv (db self) = [] \<and> e = TypeError) \<or>
          (\<exists>b \<in> snd ` set (srv (db self)). loads P b = Inl e))) res"
proof (rule sample_with_duplicates.raw_induct[OF _ run])
  fix loop :: "'a pickle \<Rightarrow> DistributedExperienceReplay \<Rightarrow> (nat \<Rightarrow> nat) \<Rightarrow> nat \<Rightarrow> int \<Rightarrow>
        transition_dict \<Rightarrow> 'a redis \<Rightarrow> ((error + transition_dict) \<times> 'a redis) option"
    and P :: "'a pickle" and self :: DistributedExperienceReplay
    and rnd :: "nat \<Rightarrow> nat" and i :: nat and sz :: int and idx :: transition_dict and srv :: "'a redis" and res
  let ?d = "db self"
  let ?step = "\<lambda>I. \<forall>idx k b t. I idx \<longrightarrow> int (length idx) \<noteq> sz \<longrightarrow> map_of (srv ?d) k = Some b \<longrightarrow>
           loads P b = Inr t \<longrightarrow> I (AList.update (Some k) t idx)"
  let ?post = "\<lambda>I res. snd res = srv \<and> (\<forall>idx'. fst res = Inr idx' \<longrightarrow> I idx' \<and> int (length idx') = sz) \<and>
       (\<forall>e. fst res = Inl e \<longrightarrow> (srv ?d = [] \<and> e = TypeError) \<or>
          (\<exists>b \<in> snd ` set (srv ?d). loads P b = Inl e))"
  assume hyp: "\<And>P self rnd i sz idx srv res. loop P self rnd i sz idx srv = Some res \<Longrightarrow>
     (case ((((((P, self), rnd), i), sz), idx), srv) of
           ((((((P, self), rnd), i), sz), idx), srv) \<Rightarrow> \<lambda>res.
     \<forall>I. I idx \<longrightarrow>
       (\<forall>idx k b t. I idx \<longrightarrow> int (length idx) \<noteq> sz \<longrightarrow> map_of (srv (db self)) k = Some b \<longrightarrow>
           loads P b = Inr t \<longrightarrow> I (AList.update (Some k) t idx)) \<longrightarrow>
       snd res = srv \<and> (\<forall>idx'. fst res = Inr idx' \<longrightarrow> I idx' \<and> int (length idx') = sz) \<and>
       (\<forall>e. fst res = Inl e \<longrightarrow> (srv (db self) = [] \<and> e = TypeError) \<or>
          (\<exists>b \<in> snd ` set (srv (db self)). loads P b = Inl e))) res"
  have IH: "?post I res'" if "loop P self rnd j sz idx' srv = Some res'" "I idx'" "?step I"
    for I j idx' res'
  proof -
    note all = hyp[OF that(1), unfolded prod.case]
    note this_one = spec[where x = I, OF all]
    from this_one[THEN mp, OF that(2), THEN mp, OF that(3)] show ?thesis .
  qed
  assume body: "(if int (length idx) \<noteq> sz
         then case redis_randomkey (rnd i) (db self) srv of
           (key, srv1) \<Rightarrow>
             (case redis_get (db self) (encode key) srv1 of
               (blob, srv2) \<Rightarrow>
                (case blob of None \<Rightarrow> Some (Inl TypeError, srv2)
                 | Some b \<Rightarrow>
                 (case loads P b of Inl e \<Rightarrow> Some (Inl e, srv2)
                  | Inr t \<Rightarrow> loop P self rnd (Suc i) sz (AList.update key t idx) srv2)))
         else Some (Inr idx, srv)) = Some res"
  have "?post I res" if I: "I idx" and step: "?step I" for I
  proof (cases "int (length idx) = sz")
    case True
    with body have "res = (Inr idx, srv)" by simp
    with True I show ?thesis by simp
  next
    case False
    show ?thesis
    proof (cases "srv ?d = []")
      case True
      with False body have "res = (Inl TypeError, srv)"
        by (simp add: randomkey_eq redis_get_def)
      with True show ?thesis by simp
    next
      case nonempty: False
      define k where "k = fst (srv ?d ! (rnd i mod length (srv ?d)))"
      from nonempty have "k \<in> fst ` set (srv ?d)"
        unfolding k_def by (rule drawn_key_live)
      then obtain b where b: "map_of (srv ?d) k = Some b"
        using live_key_blob by fastforce
      show ?thesis
      proof (cases "loads P b")
        case (Inl e)
        with False nonempty b body have "res = (Inl e, srv)"
          by (simp add: randomkey_eq redis_get_def k_def)
        moreover from b have "b \<in> snd ` set (srv ?d)"
          by (force dest: map_of_SomeD)
        ultimately show ?thesis using Inl by auto
      next
        case (Inr t)
        with False nonempty b body
        have "loop P self rnd (Suc i) sz (AList.update (Some k) t idx) srv = Some res"
          by (simp add: randomkey_eq redis_get_def k_def)
        moreover from step I False b Inr have "I (AList.update (Some k) t idx)"
          by blast
        ultimately show ?thesis using step by (rule IH)
      qed
    qed
  qed
  then show "(case ((((((P, self), rnd), i), sz), idx), srv) of
           ((((((P, self), rnd), i), sz), idx), srv) \<Rightarrow> \<lambda>res.
     \<forall>I. I idx \<longrightarrow>
       (\<forall>idx k b t. I idx \<longrightarrow> int (length idx) \<noteq> sz \<longrightarrow> map_of (srv (db self)) k = Some b \<longrightarrow>
           loads P b = Inr t \<longrightarrow> I (AList.update (Some k) t idx)) \<longrightarrow>
       snd res = srv \<and> (\<forall>idx'. fst res = Inr idx' \<longrightarrow> I idx' \<and> int (length idx') = sz) \<and>
       (\<forall>e. fst res = Inl e \<longrightarrow> (srv (db self) = [] \<and> e = TypeError) \<or>
          (\<exists>b \<in> snd ` set (srv (db self)). loads P b = Inl e))) res"
    unfolding prod.case by blast
qed

lemma sample_with_duplicates_rule:
  assumes run: "sample_with_duplicates P self rnd i sz idx srv = Some (r, srv')"
    and init: "I idx"
    and step: "\<And>idx k b t. I idx \<Longrightarrow> int (length idx) \<noteq> sz \<Longrightarrow>
       map_of (srv (db self)) k = Some b \<Longrightarrow> loads P b = Inr t \<Longrightarrow> I (AList.update (Some k) t idx)"
  shows "srv' = srv"
    and "r = Inr idx' \<Longrightarrow> I idx' \<and> int (length idx') = sz"
    and "r = Inl e \<Longrightarrow> (srv (db self) = [] \<and> e = TypeError) \<or>
          (\<exists>b \<in> snd ` set (srv (db self)). loads P b = Inl e)"
proof -
  have st: "\<forall>idx k b t. I idx \<longrightarrow> int (length idx) \<noteq> sz \<longrightarrow>
      map_of (srv (db self)) k = Some b \<longrightarrow> loads P b = Inr t \<longrightarrow> I (AList.update (Some k) t idx)"
    by (intro allI impI) (rule step)
  note all = sample_with_duplicates_invariant[OF run, unfolded prod.case]
  note this_one = spec[where x = I, OF all]
  note post = this_one[THEN mp, OF init, THEN mp, OF st, unfolded fst_conv snd_conv]
  from post[THEN conjunct1] show "srv' = srv" .
  from post[THEN conjunct2, THEN conjunct1]
  show "r = Inr idx' \<Longrightarrow> I idx' \<and> int (length idx') = sz"
    by (elim allE[where x = idx'] impE) assumption
  from post[THEN conjunct2, THEN conjunct2]
  show "r = Inl e \<Longrightarrow> (srv (db self) = [] \<and> e = TypeError) \<or>
          (\<exists>b \<in> snd ` set (srv (db self)). loads P b = Inl e)"
    by (elim allE[where x = e] impE) assumption
qed

lemma sample_without_duplicates_invariant:
  assumes run: "sample_without_duplicates P self rnd i sz idx srv = Some res"
  shows "(case ((((((P, self), rnd), i), sz), idx), srv) of
           ((((((P, self), rnd), i), sz), idx), srv) \<Rightarrow> \<lambda>res.
     \<forall>I. I idx \<longrightarrow>
       (\<forall>idx k b t. I idx \<longrightarrow> int (length idx) \<noteq> sz \<longrightarrow> map_of (srv (db self)) k = Some b \<longrightarrow>
           loads P b = Inr t \<longrightarrow> I (AList.update (Some k) t idx)) \<longrightarrow>
       snd res = srv \<and> (\<forall>idx'. fst res = Inr idx' \<longrightarrow> I idx' \<and> int (length idx') = sz) \<and>
       (\<forall>e. fst res = Inl e \<longrightarrow> (srv (db self) = [] \<and> e = TypeError) \<or>
          (\<exists>b \<in> snd ` set (srv (db self)). loads P b = Inl e))) res"
proof (rule sample_without_duplicates.raw_induct[OF _ run])
  fix loop :: "'a pickle \<Rightarrow> DistributedExperienceReplay \<Rightarrow> (nat \<Rightarrow> nat) \<Rightarrow> nat \<Rightarrow> int \<Rightarrow>
        transition_dict \<Rightarrow> 'a redis \<Rightarrow> ((error + transition_dict) \<times> 'a redis) option"
    and P :: "'a pickle" and self :: DistributedExperienceReplay
    and rnd :: "nat \<Rightarrow> nat" and i :: nat and sz :: int and idx :: transition_dict
    and srv :: "'a redis" and res
  let ?d = "db self"
  let ?step = "\<lambda>I. \<forall>idx k b t. I idx \<longrightarrow> int (length idx) \<noteq> sz \<longrightarrow> map_of (srv ?d) k = Some b \<longrightarrow>
           loads P b = Inr t \<longrightarrow> I (AList.update (Some k) t idx)"
  let ?post = "\<lambda>I res. snd res = srv \<and> (\<forall>idx'. fst res = Inr idx' \<longrightarrow> I idx' \<and> int (length idx') = sz) \<and>
       (\<forall>e. fst res = Inl e \<longrightarrow> (srv ?d = [] \<and> e = TypeError) \<or>
          (\<exists>b \<in> snd ` set (srv ?d). loads P b = Inl e))"
  assume hyp: "\<And>P self rnd i sz idx srv res. loop P self rnd i sz idx srv = Some res \<Longrightarrow>
     (case ((((((P, self), rnd), i), sz), idx), srv) of
           ((((((P, self), rnd), i), sz), idx), srv) \<Rightarrow> \<lambda>res.
     \<forall>I. I idx \<longrightarrow>
       (\<forall>idx k b t. I idx \<longrightarrow> int (length idx) \<noteq> sz \<longrightarrow> map_of (srv (db self)) k = Some b \<longrightarrow>
           loads P b = Inr t \<longrightarrow> I (AList.update (Some k) t idx)) \<longrightarrow>
       snd res = srv \<and> (\<forall>idx'. fst res = Inr idx' \<longrightarrow> I idx' \<and> int (length idx') = sz) \<and>
       (\<forall>e. fst res = Inl e \<longrightarrow> (srv (db self) = [] \<and> e = TypeError) \<or>
          (\<exists>b \<in> snd ` set (srv (db self)). loads P b = Inl e))) res"
  have IH: "?post I res'" if "loop P self rnd j sz idx' srv = Some res'" "I idx'" "?step I"
    for I j idx' res'
  proof -
    note all = hyp[OF that(1), unfolded prod.case]
    note this_one = spec[where x = I, OF all]
    from this_one[THEN mp, OF that(2), THEN mp, OF that(3)] show ?thesis .
  qed
  assume body: "(if int (length idx) \<noteq> sz
         then case redis_randomkey (rnd i) (db self) srv of
           (key, srv1) \<Rightarrow>
             if key \<in> fst ` set idx then loop P self rnd (Suc i) sz idx srv1
             else
             (case redis_get (db self) (encode key) srv1 of
               (blob, srv2) \<Rightarrow>
                (case blob of None \<Rightarrow> Some (Inl TypeError, srv2)
                 | Some b \<Rightarrow>
                 (case loads P b of Inl e \<Rightarrow> Some (Inl e, srv2)
                  | Inr t \<Rightarrow> loop P self rnd (Suc i) sz (AList.update key t idx) srv2)))
         else Some (Inr idx, srv)) = Some res"
  have "?post I res" if I: "I idx" and step: "?step I" for I
  proof (cases "int (length idx) = sz")
    case True
    with body have "res = (Inr idx, srv)" by simp
    with True I show ?thesis by simp
  next
    case False
    define key where "key = fst (redis_randomkey (rnd i) ?d srv)"
    show ?thesis
    proof (cases "key \<in> fst ` set idx")
      case True
      with False body have "loop P self rnd (Suc i) sz idx srv = Some res"
        by (simp add: randomkey_eq key_def split: if_splits)
      then show ?thesis using I step by (rule IH)
    next
      case fresh: False
      show ?thesis
      proof (cases "srv ?d = []")
        case True
        with False fresh body have "res = (Inl TypeError, srv)"
          by (simp add: randomkey_eq redis_get_def key_def)
        with True show ?thesis by simp
      next
        case nonempty: False
        define k where "k = fst (srv ?d ! (rnd i mod length (srv ?d)))"
        from nonempty have key: "key = Some k"
          by (simp add: key_def k_def randomkey_eq)
        from nonempty have "k \<in> fst ` set (srv ?d)"
          unfolding k_def by (rule drawn_key_live)
        then obtain b where b: "map_of (srv ?d) k = Some b"
          using live_key_blob by fastforce
        show ?thesis
        proof (cases "loads P b")
          case (Inl e)
          with False nonempty fresh key b body have "res = (Inl e, srv)"
            by (simp add: randomkey_eq redis_get_def k_def)
          moreover from b have "b \<in> snd ` set (srv ?d)"
            by (force dest: map_of_SomeD)
          ultimately show ?thesis using Inl by auto
        next
          case (Inr t)
          with False nonempty fresh key b body
          have "loop P self rnd (Suc i) sz (AList.update (Some k) t idx) srv = Some res"
            by (simp add: randomkey_eq redis_get_def k_def)
          moreover from step I False b Inr have "I (AList.update (Some k) t idx)"
            by blast
          ultimately show ?thesis using step by (rule IH)
        qed
      qed
    qed
  qed
  then show "(case ((((((P, self), rnd), i), sz), idx), srv) of
           ((((((P, self), rnd), i), sz), idx), srv) \<Rightarrow> \<lambda>res.
     \<forall>I. I idx \<longrightarrow>
       (\<forall>idx k b t. I idx \<longrightarrow> int (length idx) \<noteq> sz \<longrightarrow> map_of (srv (db self)) k = Some b \<longrightarrow>
           loads P b = Inr t \<longrightarrow> I (AList.update (Some k) t idx)) \<longrightarrow>
       snd res = srv \<and> (\<forall>idx'. fst res = Inr idx' \<longrightarrow> I idx' \<and> int (length idx') = sz) \<and>
       (\<forall>e. fst res = Inl e \<longrightarrow> (srv (db self) = [] \<and> e = TypeError) \<or>
          (\<exists>b \<in> snd ` set (srv (db self)). loads P b = Inl e))) res"
    unfolding prod.case by blast
qed

lemma sample_without_duplicates_rule:
  assumes run: "sample_without_duplicates P self rnd i sz idx srv = Some (r, srv')"
    and init: "I idx"
    and step: "\<And>idx k b t. I idx \<Longrightarrow> int (length idx) \<noteq> sz \<Longrightarrow>
       map_of (srv (db self)) k = Some b \<Longrightarrow> loads P b = Inr t \<Longrightarrow> I (AList.update (Some k) t idx)"
  shows "srv' = srv"
    and "r = Inr idx' \<Longrightarrow> I idx' \<and> int (length idx') = sz"
    and "r = Inl e \<Longrightarrow> (srv (db self) = [] \<and> e = TypeError) \<or>
          (\<exists>b \<in> snd ` set (srv (db self)). loads P b = Inl e)"
proof -
  have st: "\<forall>idx k b t. I idx \<longrightarrow> int (length idx) \<noteq> sz \<longrightarrow>
      map_of (srv (db self)) k = Some b \<longrightarrow> loads P b = Inr t \<longrightarrow> I (AList.update (Some k) t idx)"
    by (intro allI impI) (rule step)
  note all = sample_without_duplicates_invariant[OF run, unfolded prod.case]
  note this_one = spec[where x = I, OF all]
  note post = this_one[THEN mp, OF init, THEN mp, OF st, unfolded fst_conv snd_conv]
  from post[THEN conjunct1] show "srv' = srv" .
  from post[THEN conjunct2, THEN conjunct1]
  show "r = Inr idx' \<Longrightarrow> I idx' \<and> int (length idx') = sz"
    by (elim allE[where x = idx'] impE) assumption
  from post[THEN conjunct2, THEN conjunct2]
  show "r = Inl e \<Longrightarrow> (srv (db self) = [] \<and> e = TypeError) \<or>
          (\<exists>b \<in> snd ` set (srv (db self)). loads P b = Inl e)"
    by (elim allE[where x = e] impE) assumption
qed


lemma sample_without_duplicates_unfold:
  "sample_without_duplicates P self rnd i sz idx srv =
     (if int (length idx) = sz then Some (Inr idx, srv)
      else if srv (db self) = [] then
        (if None \<in> fst ` set idx then sample_without_duplicates P self rnd (Suc i) sz idx srv
         else Some (Inl TypeError, srv))
      else if Some (fst (srv (db self) ! (rnd i mod length (srv (db self))))) \<in> fst ` set idx
        then sample_without_duplicates P self rnd (Suc i) sz idx srv
      else
        (case loads P (the (map_of (srv (db self))
                 (fst (srv (db self) ! (rnd i mod length (srv (db self))))))) of
           Inl e \<Rightarrow> Some (Inl e, srv)
         | Inr t \<Rightarrow>
             sample_without_duplicates P self rnd (Suc i) sz
               (AList.update (Some (fst (srv (db self) ! (rnd i mod length (srv (db self)))))) t idx)
               srv))"
proof (cases "srv (db self) = []")
  case True
  then show ?thesis
    by (subst sample_without_duplicates.simps) (simp add: randomkey_eq redis_get_def)
next
  case False
  then obtain b where
    "map_of (srv (db self)) (fst (srv (db self) ! (rnd i mod length (srv (db self))))) = Some b"
    using live_key_blob[OF drawn_key_live] by blast
  with False show ?thesis
    by (subst sample_without_duplicates.simps) (simp add: randomkey_eq redis_get_def)
qed

lemma draws_Suc:
  "draws rnd al (Suc i) = draws rnd al i @ [fst (al ! (rnd i mod length al))]"
  by (simp add: draws_def)

lemma draws_mono: "i \<le> m \<Longrightarrow> set (draws rnd al i) \<subseteq> set (draws rnd al m)"
  by (auto simp: draws_def)

lemma length_dict:
  "distinct (map fst idx) \<Longrightarrow> fst ` set idx = Some ` A \<Longrightarrow> length idx = card A"
proof -
  assume d: "distinct (map fst idx)" and k: "fst ` set idx = Some ` A"
  have "length idx = card (set (map fst idx))"
    using distinct_card[OF d] by simp
  also have "\<dots> = card (Some ` A)" using k by simp
  also have "\<dots> = card A" by (simp add: card_image)
  finally show ?thesis .
qed

lemma set_update_subset: "set (AList.update k v al) \<subseteq> insert (k, v) (set al)"
  by (induction al) auto

lemma collected_update:
  assumes "collected P al idx" "map_of al k = Some b" "loads P b = Inr t"
  shows "collected P al (AList.update (Some k) t idx)"
proof -
  have "distinct (map fst (AList.update (Some k) t idx))"
    using assms(1) by (simp add: collected_def AList.distinct_update)
  moreover have "\<exists>k' b'. ko = Some k' \<and> map_of al k' = Some b' \<and> loads P b' = Inr t'"
    if "(ko, t') \<in> set (AList.update (Some k) t idx)" for ko t'
  proof -
    from that set_update_subset have "(ko, t') = (Some k, t) \<or> (ko, t') \<in> set idx"
      by fastforce
    then show ?thesis
    proof
      assume "(ko, t') = (Some k, t)"
      with assms(2,3) show ?thesis by simp
    next
      assume "(ko, t') \<in> set idx"
      with assms(1) show ?thesis by (auto simp: collected_def)
    qed
  qed
  ultimately show ?thesis unfolding collected_def by blast
qed

lemma collected_batch:
  assumes "collected P al idx"
  shows "\<exists>ks. distinct ks \<and> set ks \<subseteq> fst ` set al \<and>
           map (\<lambda>k. map_option (loads P) (map_of al k)) ks = map (\<lambda>t. Some (Inr t)) (values_of idx)"
proof (intro exI conjI)
  let ?ks = "map (\<lambda>p. the (fst p)) idx"
  have some: "\<exists>k b. fst p = Some k \<and> map_of al k = Some b \<and> loads P b = Inr (snd p)"
    if "p \<in> set idx" for p
    using assms that unfolding collected_def by (cases p) auto
  from assms have d: "distinct (map fst idx)"
    unfolding collected_def by (rule conjunct1)
  have inj: "inj_on the (set (map fst idx))"
    by (rule inj_onI) (auto dest!: some)
  from d inj have "distinct (map the (map fst idx))"
    unfolding distinct_map[of the "map fst idx"] by (rule conjI)
  then show "distinct ?ks" by (simp add: comp_def)
  show "set ?ks \<subseteq> fst ` set al"
  proof
    fix k assume "k \<in> set ?ks"
    then obtain p where "p \<in> set idx" "k = the (fst p)" by auto
    with some[of p] obtain b where "map_of al k = Some b" by auto
    then have "(k, b) \<in> set al" by (rule map_of_SomeD)
    then show "k \<in> fst ` set al" by force
  qed
  show "map (\<lambda>k. map_option (loads P) (map_of al k)) ?ks = map (\<lambda>t. Some (Inr t)) (values_of idx)"
    unfolding values_of_def by (auto dest!: some)
qed


lemma sample_without_duplicates_returns:
  assumes nonempty: "srv (db self) \<noteq> []"
    and loadable: "\<forall>b \<in> snd ` set (srv (db self)). \<exists>t. loads P b = Inr t"
    and reach: "int (card (set (draws rnd (srv (db self)) m))) = sz"
  shows "i \<le> m \<Longrightarrow> distinct (map fst idx) \<Longrightarrow>
         fst ` set idx = Some ` set (draws rnd (srv (db self)) i) \<Longrightarrow>
         \<exists>idx'. sample_without_duplicates P self rnd i sz idx srv = Some (Inr idx', srv)"
proof (induction "m - i" arbitrary: i idx)
  case 0
  then have "i = m" by simp
  with 0 have "length idx = card (set (draws rnd (srv (db self)) m))"
    by (simp add: length_dict)
  with reach have "int (length idx) = sz" by simp
  then show ?case by (subst sample_without_duplicates_unfold) simp
next
  case (Suc n)
  let ?al = "srv (db self)"
  let ?k = "fst (?al ! (rnd i mod length ?al))"
  from Suc.hyps(2) have next_i: "n = m - Suc i" "Suc i \<le> m" by simp_all
  show ?case
  proof (cases "int (length idx) = sz")
    case True
    then show ?thesis by (subst sample_without_duplicates_unfold) simp
  next
    case False
    show ?thesis
    proof (cases "Some ?k \<in> fst ` set idx")
      case True
      with Suc.prems(3) have "fst ` set idx = Some ` set (draws rnd ?al (Suc i))"
        by (auto simp: draws_Suc)
      with Suc.hyps(1)[OF next_i Suc.prems(2)]
      have "\<exists>idx'. sample_without_duplicates P self rnd (Suc i) sz idx srv = Some (Inr idx', srv)"
        by blast
      with False nonempty True show ?thesis
        by (subst sample_without_duplicates_unfold) simp
    next
      case fresh: False
      from nonempty have "?k \<in> fst ` set ?al" by (rule drawn_key_live)
      then obtain b where b: "map_of ?al ?k = Some b"
        using live_key_blob by fastforce
      then have "b \<in> snd ` set ?al" by (force dest: map_of_SomeD)
      with loadable obtain t where t: "loads P b = Inr t" by blast
      let ?idx = "AList.update (Some ?k) t idx"
      have "distinct (map fst ?idx)"
        using Suc.prems(2) by (simp add: AList.distinct_update)
      moreover have "fst ` set ?idx = Some ` set (draws rnd ?al (Suc i))"
        using Suc.prems(3) by (simp add: AList.dom_update draws_Suc)
      ultimately have
        "\<exists>idx'. sample_without_duplicates P self rnd (Suc i) sz ?idx srv = Some (Inr idx', srv)"
        using Suc.hyps(1) next_i by blast
      with False nonempty fresh b t show ?thesis
        by (subst sample_without_duplicates_unfold) simp
    qed
  qed
qed

lemma card_draws_le:
  assumes "al \<noteq> []"
  shows "card (set (draws rnd al m)) \<le> length al"
proof -
  have "set (draws rnd al m) \<subseteq> fst ` set al"
    using assms by (auto simp: draws_def)
  then have "card (set (draws rnd al m)) \<le> card (fst ` set al)"
    by (intro card_mono) simp_all
  also have "\<dots> \<le> card (set al)" by (intro card_image_le) simp
  also have "\<dots> \<le> length al" by (rule card_length)
  finally show ?thesis .
qed

subsection \<open>The eviction loop\<close>

lemma enforce_loop_unfold:
  "enforce_loop self rnd i sz srv =
     (if sz = 0 then (Inr (), srv)
      else if srv (db self) = [] then (Inl KeyError, srv)
      else if int (length (srv (db self))) > sz then
        enforce_loop self rnd (Suc i) sz
          (srv(db self := AList.delete (fst (srv (db self) ! (rnd i mod length (srv (db self)))))
                 (srv (db self))))
      else (Inr (), srv))"
  by (subst enforce_loop.simps)
    (simp add: num_transitions_eq randomkey_eq redis_delete_def)

lemma length_delete_live:
  "k \<in> fst ` set al \<Longrightarrow> length (AList.delete k al) < length al"
  by (induction al) (force simp: less_Suc_eq_le AList.length_delete_le)+

lemma length_delete_distinct:
  "distinct (map fst al) \<Longrightarrow> k \<in> fst ` set al \<Longrightarrow> Suc (length (AList.delete k al)) = length al"
  by (induction al) (auto simp: rev_image_eqI)

lemma set_delete_subset: "set (AList.delete k al) \<subseteq> set al"
  by (auto simp: AList.delete_eq)

lemma enforce_loop_bound:
  "enforce_loop self rnd i sz srv = (Inr (), srv') \<Longrightarrow> sz \<noteq> 0 \<Longrightarrow>
     int (length (srv' (db self))) \<le> sz"
proof (induction "length (srv (db self))" arbitrary: i srv rule: less_induct)
  case less
  let ?al = "srv (db self)"
  let ?k = "fst (?al ! (rnd i mod length ?al))"
  from less.prems have nonempty: "?al \<noteq> []"
    by (subst (asm) enforce_loop_unfold) (auto split: if_splits)
  show ?case
  proof (cases "int (length ?al) > sz")
    case True
    let ?srv = "srv(db self := AList.delete ?k ?al)"
    from True nonempty less.prems
    have run: "enforce_loop self rnd (Suc i) sz ?srv = (Inr (), srv')"
      by (subst (asm) enforce_loop_unfold) simp
    from nonempty have "length (?srv (db self)) < length ?al"
      by (simp add: length_delete_live)
    from less.hyps[OF this run less.prems(2)] show ?thesis .
  next
    case False
    with nonempty less.prems have "srv' = srv"
      by (subst (asm) enforce_loop_unfold) simp
    with False show ?thesis by simp
  qed
qed

lemma enforce_loop_evicts:
  "0 < sz \<Longrightarrow> srv (db self) \<noteq> [] \<Longrightarrow> distinct (map fst (srv (db self))) \<Longrightarrow>
     \<exists>srv'. enforce_loop self rnd i sz srv = (Inr (), srv') \<and>
       length (srv' (db self)) = min (length (srv (db self))) (nat sz) \<and>
       distinct (map fst (srv' (db self))) \<and>
       set (srv' (db self)) \<subseteq> set (srv (db self))"
proof (induction "length (srv (db self))" arbitrary: i srv rule: less_induct)
  case less
  let ?al = "srv (db self)"
  let ?k = "fst (?al ! (rnd i mod length ?al))"
  show ?case
  proof (cases "int (length ?al) > sz")
    case True
    let ?srv = "srv(db self := AList.delete ?k ?al)"
    from less.prems have live: "?k \<in> fst ` set ?al" by (intro drawn_key_live)
    with less.prems have len: "Suc (length (?srv (db self))) = length ?al"
      by (simp add: length_delete_distinct)
    with True less.prems have "?srv (db self) \<noteq> []" by auto
    moreover from less.prems have "distinct (map fst (?srv (db self)))"
      by (simp add: AList.distinct_delete)
    moreover from len have "length (?srv (db self)) < length ?al" by simp
    ultimately obtain srv' where
      run: "enforce_loop self rnd (Suc i) sz ?srv = (Inr (), srv')"
      and props: "length (srv' (db self)) = min (length (?srv (db self))) (nat sz)"
        "distinct (map fst (srv' (db self)))" "set (srv' (db self)) \<subseteq> set (?srv (db self))"
      using less.hyps[of ?srv "Suc i"] less.prems(1) by blast
    from True less.prems run have "enforce_loop self rnd i sz srv = (Inr (), srv')"
      by (subst enforce_loop_unfold) simp
    moreover from props(1) len True have "length (srv' (db self)) = min (length ?al) (nat sz)"
      by linarith
    moreover from props(3) have "set (srv' (db self)) \<subseteq> set ?al"
      using set_delete_subset by fastforce
    ultimately show ?thesis using props(2) by blast
  next
    case False
    with less.prems have "enforce_loop self rnd i sz srv = (Inr (), srv)"
      by (subst enforce_loop_unfold) simp
    with False less.prems show ?thesis by (intro exI[of _ srv]) simp
  qed
qed

lemma enforce_loop_survivors:
  "enforce_loop self rnd i sz srv = (r, srv') \<Longrightarrow>
     set (srv' (db self)) \<subseteq> set (srv (db self)) \<and>
     (distinct (map fst (srv (db self))) \<longrightarrow> distinct (map fst (srv' (db self))))"
proof (induction "length (srv (db self))" arbitrary: i srv rule: less_induct)
  case less
  let ?al = "srv (db self)"
  let ?k = "fst (?al ! (rnd i mod length ?al))"
  let ?srv = "srv(db self := AList.delete ?k ?al)"
  show ?case
  proof (cases "sz \<noteq> 0 \<and> ?al \<noteq> [] \<and> int (length ?al) > sz")
    case True
    with less.prems have run: "enforce_loop self rnd (Suc i) sz ?srv = (r, srv')"
      by (subst (asm) enforce_loop_unfold) simp
    from True have "length (?srv (db self)) < length ?al"
      by (simp add: length_delete_live)
    from less.hyps[OF this run]
    have "set (srv' (db self)) \<subseteq> set (AList.delete ?k ?al)"
      and "distinct (map fst (AList.delete ?k ?al)) \<longrightarrow> distinct (map fst (srv' (db self)))"
      by simp_all
    then show ?thesis
      using set_delete_subset[of ?k ?al] by (auto simp: AList.distinct_delete)
  next
    case False
    with less.prems have "srv' = srv"
      by (subst (asm) enforce_loop_unfold) (auto split: if_splits)
    then show ?thesis by simp
  qed
qed

subsection \<open>Storing\<close>

lemma enforce_max_length_eq:
  "enforce_max_length self rnd srv =
     (if fst (max_size self) = Transitions then enforce_loop self rnd 0 (snd (max_size self)) srv
      else (Inl ValueError, srv))"
  by (simp add: enforce_max_length_def split: prod.splits)

lemma store_eq:
  "store P self rnd k t srv =
     enforce_max_length self rnd (srv(db self := AList.update k (dumps P t) (srv (db self))))"
  by (simp add: store_def redis_set_def)

lemma store_survivors:
  assumes "store P self rnd k t srv = (r, srv')"
  shows "set (srv' (db self)) \<subseteq> set (AList.update k (dumps P t) (srv (db self)))"
    and "set (srv' (db self)) \<subseteq> insert (k, dumps P t) (set (srv (db self)))"
    and "distinct (map fst (srv (db self))) \<Longrightarrow> distinct (map fst (srv' (db self)))"
proof -
  let ?srv = "srv(db self := AList.update k (dumps P t) (srv (db self)))"
  have "set (srv' (db self)) \<subseteq> set (?srv (db self)) \<and>
     (distinct (map fst (?srv (db self))) \<longrightarrow> distinct (map fst (srv' (db self))))"
  proof (cases "fst (max_size self) = Transitions")
    case True
    with assms have "enforce_loop self rnd 0 (snd (max_size self)) ?srv = (r, srv')"
      by (simp add: store_eq enforce_max_length_eq)
    then show ?thesis by (rule enforce_loop_survivors)
  next
    case False
    with assms have "srv' = ?srv"
      by (simp add: store_eq enforce_max_length_eq)
    then show ?thesis by simp
  qed
  then show "set (srv' (db self)) \<subseteq> set (AList.update k (dumps P t) (srv (db self)))"
    and "set (srv' (db self)) \<subseteq> insert (k, dumps P t) (set (srv (db self)))"
    and "distinct (map fst (srv (db self))) \<Longrightarrow> distinct (map fst (srv' (db self)))"
    using set_update_subset[of k "dumps P t" "srv (db self)"]
    by (auto simp: AList.distinct_update)
qed

lemma store_bound:
  assumes "store P self rnd k t srv = (Inr (), srv')" "snd (max_size self) \<noteq> 0"
  shows "int (length (srv' (db self))) \<le> snd (max_size self)"
proof -
  let ?srv = "srv(db self := AList.update k (dumps P t) (srv (db self)))"
  from assms(1) have "enforce_loop self rnd 0 (snd (max_size self)) ?srv = (Inr (), srv')"
    by (simp add: store_eq enforce_max_length_eq split: if_splits)
  then show ?thesis using assms(2) by (rule enforce_loop_bound)
qed

lemma length_update:
  "length (AList.update k v al) = (if k \<in> fst ` set al then length al else Suc (length al))"
  by (induction al) auto

lemma store_completes:
  assumes gran: "fst (max_size self) = Transitions" and cap: "0 \<le> snd (max_size self)"
    and dist: "distinct (map fst (srv (db self)))"
  shows "\<exists>srv'. store P self rnd k t srv = (Inr (), srv') \<and>
     (0 < snd (max_size self) \<longrightarrow>
        length (srv' (db self)) =
          min (length (AList.update k (dumps P t) (srv (db self)))) (nat (snd (max_size self))))"
proof (cases "snd (max_size self) = 0")
  case True
  with gran show ?thesis
    by (simp add: store_eq enforce_max_length_eq enforce_loop_unfold)
next
  case False
  let ?srv = "srv(db self := AList.update k (dumps P t) (srv (db self)))"
  from False cap have pos: "0 < snd (max_size self)" by simp
  moreover have "?srv (db self) \<noteq> []" by simp
  moreover from dist have "distinct (map fst (?srv (db self)))"
    by (simp add: AList.distinct_update)
  ultimately obtain srv' where
    "enforce_loop self rnd 0 (snd (max_size self)) ?srv = (Inr (), srv')"
    "length (srv' (db self)) = min (length (?srv (db self))) (nat (snd (max_size self)))"
    using enforce_loop_evicts[of "snd (max_size self)" ?srv self rnd 0] by blast
  with gran show ?thesis
    by (simp add: store_eq enforce_max_length_eq)
qed

lemma store_all_count:
  assumes gran: "fst (max_size self) = Transitions" and cap: "0 < snd (max_size self)"
  shows "distinct (map fst (srv (db self))) \<Longrightarrow> length (srv (db self)) \<le> nat (snd (max_size self)) \<Longrightarrow>
     distinct (map (fst \<circ> snd) xs) \<Longrightarrow>
     fst ` set (srv (db self)) \<inter> (fst \<circ> snd) ` set xs = {} \<Longrightarrow>
     \<exists>srv'. store_all P self xs srv = (Inr (), srv') \<and>
       length (srv' (db self)) = min (length (srv (db self)) + length xs) (nat (snd (max_size self))) \<and>
       set (srv' (db self)) \<subseteq> set (srv (db self)) \<union> (\<lambda>(rnd, k, t). (k, dumps P t)) ` set xs \<and>
       distinct (map fst (srv' (db self)))"
proof (induction xs arbitrary: srv)
  case Nil
  then show ?case by simp
next
  case (Cons x xs)
  obtain rnd k t where x: "x = (rnd, k, t)" by (cases x)
  let ?cap = "nat (snd (max_size self))"
  from Cons.prems(4) x have fresh: "k \<notin> fst ` set (srv (db self))" by auto
  from cap have "0 \<le> snd (max_size self)" by simp
  from store_completes[where self = self and srv = srv and P = P and rnd = rnd and k = k
      and t = t, OF gran this Cons.prems(1)] cap fresh
  obtain srv1 where run: "store P self rnd k t srv = (Inr (), srv1)"
    and len: "length (srv1 (db self)) = min (Suc (length (srv (db self)))) ?cap"
    by (auto simp: length_update)
  note subs = store_survivors(2)[OF run] and dist = store_survivors(3)[OF run Cons.prems(1)]
  have keys: "fst ` set (srv1 (db self)) \<subseteq> insert k (fst ` set (srv (db self)))"
    using subs by force
  have disj: "fst ` set (srv1 (db self)) \<inter> (fst \<circ> snd) ` set xs = {}"
  proof -
    from Cons.prems(3) x have "k \<notin> (fst \<circ> snd) ` set xs" by simp
    moreover from Cons.prems(4) have "fst ` set (srv (db self)) \<inter> (fst \<circ> snd) ` set xs = {}"
      by auto
    ultimately have "insert k (fst ` set (srv (db self))) \<inter> (fst \<circ> snd) ` set xs = {}"
      by blast
    with keys show ?thesis by blast
  qed
  from len have "length (srv1 (db self)) \<le> ?cap" by simp
  with Cons.IH[of srv1, OF dist _ _ disj] Cons.prems(3)
  obtain srv' where rest: "store_all P self xs srv1 = (Inr (), srv')"
    and len': "length (srv' (db self)) = min (length (srv1 (db self)) + length xs) ?cap"
    and subs': "set (srv' (db self)) \<subseteq> set (srv1 (db self)) \<union> (\<lambda>(rnd, k, t). (k, dumps P t)) ` set xs"
    and dist': "distinct (map fst (srv' (db self)))"
    by auto
  from run rest x have "store_all P self (x # xs) srv = (Inr (), srv')" by simp
  moreover from len len' have
    "length (srv' (db self)) = min (length (srv (db self)) + length (x # xs)) ?cap"
    by (simp add: min_def)
  moreover from subs subs' x have
    "set (srv' (db self)) \<subseteq> set (srv (db self)) \<union> (\<lambda>(rnd, k, t). (k, dumps P t)) ` set (x # xs)"
    by auto
  ultimately show ?case using dist' by blast
qed

subsection \<open>Counting\<close>

text \<open>
  C6. \<^verbatim>\<open>num_transitions\<close> and its alias \<^verbatim>\<open>length\<close> are meant to return the number of
  transitions in the buffer, 0 for a buffer without transitions. On a database without keys
  the keyspace info has no entry for the database and both end with \<open>KeyError\<close>.
\<close>

theorem num_transitions_empty_KeyError:
  "num_transitions (buffer 3 True) empty_server = (Inl KeyError, empty_server) \<and>
   length_er (buffer 3 True) empty_server = (Inl KeyError, empty_server)"
  by (simp add: length_er_def num_transitions_eq empty_server_def)

subsection \<open>Point access and removal\<close>

lemma get_transition_absent:
  "k \<notin> fst ` set (srv (db self)) \<Longrightarrow> get_transition P self k srv = (Inl TypeError, srv)"
  by (simp add: get_transition_def redis_get_def map_of_eq_None_iff[THEN iffD2])

lemma remove_transition_absent:
  "k \<notin> fst ` set (srv (db self)) \<Longrightarrow> remove_transition self k srv = (Inr (), srv)"
  by (simp add: remove_transition_def redis_delete_def)

lemma remove_transition_then_get_transition:
  "get_transition P self k (snd (remove_transition self k srv)) =
     (Inl TypeError, snd (remove_transition self k srv))"
  by (rule get_transition_absent)
    (simp add: remove_transition_def redis_delete_def AList.delete_notin_dom)

text \<open>
  C5. \<^verbatim>\<open>get_transition\<close> (and \<^verbatim>\<open>get\<close>) on a key that is not in the store is meant to
  return \<^verbatim>\<open>None\<close>. It ends with \<open>TypeError\<close>: first on a key that was never stored, then on
  a key that \<^verbatim>\<open>remove_transition\<close> has just removed.
\<close>

theorem get_transition_absent_TypeError:
  "get_transition example_pickle (buffer 3 True) ''k'' empty_server =
     (Inl TypeError, empty_server) \<and>
   fst (get example_pickle (buffer 3 True) ''a''
       (snd (remove_transition (buffer 3 True) ''a'' (empty_server(0 := [(''a'', step 1)]))))) =
     Inl TypeError"
  by (simp add: get_def get_transition_def remove_transition_def redis_get_def
      redis_delete_def empty_server_def buffer_def)

subsection \<open>Cleaning\<close>

text \<open>
  C8, as the claim states it: \<^verbatim>\<open>clean\<close> leaves the keys of other databases unchanged. It
  does not: the key of database 1 is gone after cleaning a buffer on database 0.
\<close>

theorem clean_other_database_counterexample:
  "snd (clean (buffer 3 True) other_server) 1 \<noteq> other_server 1"
  by (simp add: clean_def redis_flushall_def other_server_def)

text \<open>
  C8, amended: \<^verbatim>\<open>clean\<close> returns without an exception and removes every key of the
  server, those of the buffer's database and those of every other database.
\<close>

theorem clean_empties_every_database:
  "fst (clean self srv) = Inr () \<and> snd (clean self srv) j = []"
  by (simp add: clean_def redis_flushall_def)

subsection \<open>Sampling with duplicates allowed\<close>




subsection \<open>Capacity\<close>

text \<open>
  C2. After a call of \<^verbatim>\<open>store\<close> that completed, the database of the buffer holds at
  most \<open>max_size\<close> keys, unless the maximum size is 0. With a maximum size of 3, storing 5
  transitions under 5 different keys into an empty buffer, whatever the random choices of the
  evictions, completes and leaves 3 keys, each with the pickle of one of the 5 transitions.
\<close>

theorem store_within_capacity:
  "(store P self rnd k t srv = (Inr (), srv') \<and> snd (max_size self) \<noteq> 0
      \<longrightarrow> int (length (srv' (db self))) \<le> snd (max_size self)) \<and>
   (max_size self = (Transitions, 3) \<and> srv (db self) = [] \<and> length xs = 5 \<and>
    distinct (map (fst \<circ> snd) xs)
      \<longrightarrow> (\<exists>srv''. store_all P self xs srv = (Inr (), srv'') \<and>
             length (srv'' (db self)) = 3 \<and> distinct (map fst (srv'' (db self))) \<and>
             set (srv'' (db self)) \<subseteq> (\<lambda>(rnd, k, t). (k, dumps P t)) ` set xs))"
proof (intro conjI impI)
  assume "store P self rnd k t srv = (Inr (), srv') \<and> snd (max_size self) \<noteq> 0"
  then show "int (length (srv' (db self))) \<le> snd (max_size self)"
    using store_bound by blast
next
  assume a: "max_size self = (Transitions, 3) \<and> srv (db self) = [] \<and> length xs = 5 \<and>
    distinct (map (fst \<circ> snd) xs)"
  then have "fst (max_size self) = Transitions" "0 < snd (max_size self)" by simp_all
  from store_all_count[OF this, of srv xs P] a
  show "\<exists>srv''. store_all P self xs srv = (Inr (), srv'') \<and>
             length (srv'' (db self)) = 3 \<and> distinct (map fst (srv'' (db self))) \<and>
             set (srv'' (db self)) \<subseteq> (\<lambda>(rnd, k, t). (k, dumps P t)) ` set xs"
    by simp blast
qed

text \<open>
  An eviction (maximum size 1, a second key stored), and the five stores of the example.
\<close>

theorem store_within_capacity_witness:
  "store example_pickle (buffer 1 True) in_turn ''b'' (step 2) one_server =
     (Inr (), empty_server(0 := [(''b'', step 2)])) \<and>
   snd (max_size (buffer 1 True)) \<noteq> 0 \<and>
   int (length ((empty_server(0 := [(''b'', step 2)])) (db (buffer 1 True))))
     \<le> snd (max_size (buffer 1 True)) \<and>
   max_size (buffer 3 True) = (Transitions, 3) \<and> empty_server (db (buffer 3 True)) = [] \<and>
   length five_stores = 5 \<and> distinct (map (fst \<circ> snd) five_stores) \<and>
   (\<exists>srv''. store_all example_pickle (buffer 3 True) five_stores empty_server = (Inr (), srv'') \<and>
      length (srv'' (db (buffer 3 True))) = 3 \<and>
      distinct (map fst (srv'' (db (buffer 3 True)))) \<and>
      set (srv'' (db (buffer 3 True))) \<subseteq>
        (\<lambda>(rnd, k, t). (k, dumps example_pickle t)) ` set five_stores)"
proof -
  have run: "store example_pickle (buffer 1 True) in_turn ''b'' (step 2) one_server =
     (Inr (), empty_server(0 := [(''b'', step 2)]))"
    by (simp add: store_eq enforce_max_length_eq enforce_loop_unfold buffer_def one_server_def
        example_pickle_def in_turn_def)
  have cap: "snd (max_size (buffer 1 True)) \<noteq> 0" by (simp add: buffer_def)
  have five: "max_size (buffer 3 True) = (Transitions, 3) \<and>
      empty_server (db (buffer 3 True)) = [] \<and>
      length five_stores = 5 \<and> distinct (map (fst \<circ> snd) five_stores)"
    by (simp add: buffer_def empty_server_def five_stores_def)
  from store_within_capacity[of example_pickle "buffer 1 True" in_turn "''b''" "step 2"
      one_server "empty_server(0 := [(''b'', step 2)])"] run cap
  have first: "int (length ((empty_server(0 := [(''b'', step 2)])) (db (buffer 1 True))))
     \<le> snd (max_size (buffer 1 True))"
    by blast
  from store_within_capacity[of example_pickle "buffer 3 True" _ _ _ empty_server _ five_stores]
    five
  have "\<exists>srv''. store_all example_pickle (buffer 3 True) five_stores empty_server = (Inr (), srv'') \<and>
      length (srv'' (db (buffer 3 True))) = 3 \<and>
      distinct (map fst (srv'' (db (buffer 3 True)))) \<and>
      set (srv'' (db (buffer 3 True))) \<subseteq>
        (\<lambda>(rnd, k, t). (k, dumps example_pickle t)) ` set five_stores"
    by blast
  with run cap first five show ?thesis by blast
qed

subsection \<open>Reading back\<close>

text \<open>
  C4. When unpickling the pickle of \<open>t\<close> gives \<open>t\<close>, and \<^verbatim>\<open>store\<close> has stored \<open>t\<close>
  under the key \<open>k\<close> and its eviction has left \<open>k\<close> in the store, then
  \<^verbatim>\<open>get_transition\<close> (and \<^verbatim>\<open>get\<close>) of \<open>k\<close> returns \<open>t\<close>. The keys of the database are
  distinct, as they are in Redis.
\<close>

theorem get_transition_after_store:
  assumes roundtrip: "loads P (dumps P t) = Inr t"
    and dist: "distinct (map fst (srv (db self)))"
    and run: "store P self rnd k t srv = (Inr (), srv')"
    and kept: "k \<in> fst ` set (srv' (db self))"
  shows "get_transition P self k srv' = (Inr t, srv') \<and> get P self k srv' = (Inr t, srv')"
proof -
  let ?al = "AList.update k (dumps P t) (srv (db self))"
  from kept obtain b where b: "(k, b) \<in> set (srv' (db self))" by auto
  with store_survivors(1)[OF run] have "(k, b) \<in> set ?al" by blast
  moreover from dist have "distinct (map fst ?al)" by (simp add: AList.distinct_update)
  ultimately have "map_of ?al k = Some b" by simp
  then have "b = dumps P t" by (simp add: AList.update_conv')
  moreover from store_survivors(3)[OF run dist] b have "map_of (srv' (db self)) k = Some b"
    by simp
  ultimately show ?thesis
    using roundtrip by (simp add: get_def get_transition_def redis_get_def)
qed

text \<open>Storing a second transition and reading it back.\<close>

theorem get_transition_after_store_witness:
  "loads example_pickle (dumps example_pickle (step 2)) = Inr (step 2) \<and>
   distinct (map fst (one_server (db (buffer 3 True)))) \<and>
   store example_pickle (buffer 3 True) in_turn ''b'' (step 2) one_server =
     (Inr (), empty_server(0 := [(''a'', step 1), (''b'', step 2)])) \<and>
   ''b'' \<in> fst ` set ((empty_server(0 := [(''a'', step 1), (''b'', step 2)])) (db (buffer 3 True))) \<and>
   get_transition example_pickle (buffer 3 True) ''b''
       (empty_server(0 := [(''a'', step 1), (''b'', step 2)])) =
     (Inr (step 2), empty_server(0 := [(''a'', step 1), (''b'', step 2)]))"
proof -
  have h1: "loads example_pickle (dumps example_pickle (step 2)) = Inr (step 2)"
    by (simp add: example_pickle_def)
  have h2: "distinct (map fst (one_server (db (buffer 3 True))))"
    by (simp add: one_server_def buffer_def)
  have h3: "store example_pickle (buffer 3 True) in_turn ''b'' (step 2) one_server =
     (Inr (), empty_server(0 := [(''a'', step 1), (''b'', step 2)]))"
    by (simp add: store_eq enforce_max_length_eq enforce_loop_unfold buffer_def one_server_def
        example_pickle_def in_turn_def)
  have h4: "''b'' \<in> fst ` set ((empty_server(0 := [(''a'', step 1), (''b'', step 2)]))
      (db (buffer 3 True)))"
    by (simp add: buffer_def)
  from get_transition_after_store[OF h1 h2 h3 h4] h1 h2 h3 h4 show ?thesis by blast
qed

subsection \<open>Sampling leaves the store as it is\<close>

text \<open>
  C10. \<^verbatim>\<open>sample\<close> never changes the store: whenever it returns, with a batch or with an
  exception, every database of the server is as it was before the call.
\<close>

theorem sample_leaves_store_unchanged:
  assumes "sample P self rnd sz srv = Some out"
  shows "snd out = srv"
proof (cases "allow_duplicates_in_batch_sampling self")
  case True
  with assms obtain r where "sample_with_duplicates P self rnd 0 sz [] srv = Some (r, snd out)"
    by (auto simp: sample_def)
  then show ?thesis
    by (rule sample_with_duplicates_rule(1)[where I = "\<lambda>_. True"]) simp_all
next
  case False
  show ?thesis
  proof (cases "srv (db self) = [] \<or> \<not> int (length (srv (db self))) \<ge> sz")
    case True
    with False assms show ?thesis
      by (auto simp: sample_def num_transitions_eq split: if_splits)
  next
    case enough: False
    with False assms obtain r where
      "sample_without_duplicates P self rnd 0 sz [] srv = Some (r, snd out)"
      by (auto simp: sample_def num_transitions_eq)
    then show ?thesis
      by (rule sample_without_duplicates_rule(1)[where I = "\<lambda>_. True"]) simp_all
  qed
qed

text \<open>A call that returns a batch and a call that fails for lack of transitions.\<close>

theorem sample_leaves_store_unchanged_witness:
  "sample example_pickle (buffer 3 False) in_turn 1 two_server = Some (Inr [step 1], two_server) \<and>
   sample example_pickle (buffer 3 False) in_turn 3 two_server = Some (Inl ValueError, two_server) \<and>
   snd (Inr [step 1] :: error + Transition list, two_server) = two_server \<and>
   snd (Inl ValueError :: error + Transition list, two_server) = two_server"
proof -
  have ok: "sample example_pickle (buffer 3 False) in_turn 1 two_server =
      Some (Inr [step 1], two_server)"
    by (simp add: sample_def num_transitions_eq sample_without_duplicates_unfold
        example_pickle_def buffer_def two_server_def empty_server_def in_turn_def values_of_def)
  have short: "sample example_pickle (buffer 3 False) in_turn 3 two_server =
      Some (Inl ValueError, two_server)"
    by (simp add: sample_def num_transitions_eq buffer_def two_server_def empty_server_def)
  from sample_leaves_store_unchanged[OF ok] sample_leaves_store_unchanged[OF short] ok short
  show ?thesis by blast
qed

subsection \<open>Sampling with duplicates disallowed\<close>

lemma sample_insufficient:
  assumes "\<not> allow_duplicates_in_batch_sampling self" "srv (db self) \<noteq> []"
    "int (length (srv (db self))) < sz"
  shows "sample P self rnd sz srv = Some (Inl ValueError, srv)"
  using assms by (simp add: sample_def num_transitions_eq)

text \<open>
  With duplicates disallowed and a buffer that holds transitions, \<^verbatim>\<open>sample\<close> returns a
  batch as soon as the draws have reached as many distinct keys as requested, and every batch
  it returns has the requested size, no more transitions than the buffer holds, and holds the
  transitions stored under that many distinct keys.
\<close>

lemma sample_without_duplicates_batch:
  assumes nodup: "\<not> allow_duplicates_in_batch_sampling self"
  shows "(srv (db self) \<noteq> [] \<and> (\<forall>b \<in> snd ` set (srv (db self)). \<exists>t. loads P b = Inr t) \<and>
          int (card (set (draws rnd (srv (db self)) m))) = sz
          \<longrightarrow> (\<exists>batch. sample P self rnd sz srv = Some (Inr batch, srv))) \<and>
         (sample P self rnd sz srv = Some (Inr batch, srv')
          \<longrightarrow> int (length batch) = sz \<and> sz \<le> int (length (srv (db self))) \<and>
              (\<exists>ks. distinct ks \<and> set ks \<subseteq> fst ` set (srv (db self)) \<and>
                 map (\<lambda>k. map_option (loads P) (map_of (srv (db self)) k)) ks =
                 map (\<lambda>t. Some (Inr t)) batch))"
proof (intro conjI impI)
  assume a: "srv (db self) \<noteq> [] \<and> (\<forall>b \<in> snd ` set (srv (db self)). \<exists>t. loads P b = Inr t) \<and>
          int (card (set (draws rnd (srv (db self)) m))) = sz"
  then have "\<exists>idx'. sample_without_duplicates P self rnd 0 sz [] srv = Some (Inr idx', srv)"
    by (intro sample_without_duplicates_returns[where m = m]) (simp_all add: draws_def)
  moreover from a card_draws_le[of "srv (db self)" rnd m] have "sz \<le> int (length (srv (db self)))"
    by auto
  ultimately show "\<exists>batch. sample P self rnd sz srv = Some (Inr batch, srv)"
    using nodup a by (auto simp: sample_def num_transitions_eq)
next
  assume run: "sample P self rnd sz srv = Some (Inr batch, srv')"
  with nodup have enough: "srv (db self) \<noteq> [] \<and> sz \<le> int (length (srv (db self)))"
    by (auto simp: sample_def num_transitions_eq split: if_splits)
  with run nodup obtain r where
    "sample_without_duplicates P self rnd 0 sz [] srv = Some (r, srv')"
    and "map_sum id values_of r = Inr batch"
    by (auto simp: sample_def num_transitions_eq)
  then obtain idx' where loop: "sample_without_duplicates P self rnd 0 sz [] srv = Some (Inr idx', srv')"
    and batch: "batch = values_of idx'"
    by (cases r) auto
  have "collected P (srv (db self)) idx' \<and> int (length idx') = sz"
  proof (rule sample_without_duplicates_rule(2)[OF loop _ _ refl])
    show "collected P (srv (db self)) []" by (simp add: collected_def)
  next
    fix idx k b t
    assume "collected P (srv (db self)) idx" "map_of (srv (db self)) k = Some b" "loads P b = Inr t"
    then show "collected P (srv (db self)) (AList.update (Some k) t idx)"
      by (rule collected_update)
  qed
  then have c: "collected P (srv (db self)) idx'" and l: "int (length idx') = sz" by blast+
  from l batch show "int (length batch) = sz" by (simp add: values_of_def)
  from enough show "sz \<le> int (length (srv (db self)))" by simp
  from collected_batch[OF c] batch
  show "\<exists>ks. distinct ks \<and> set ks \<subseteq> fst ` set (srv (db self)) \<and>
                 map (\<lambda>k. map_option (loads P) (map_of (srv (db self)) k)) ks =
                 map (\<lambda>t. Some (Inr t)) batch"
    by simp
qed

text \<open>
  C1. With duplicates disallowed, \<^verbatim>\<open>sample\<close> is meant to raise the \<open>ValueError\<close> for
  insufficient data exactly when the buffer holds fewer transitions than requested. On a
  buffer without transitions, with one transition requested, the call of
  \<^verbatim>\<open>num_transitions\<close> in the condition ends with \<open>KeyError\<close> instead.
\<close>

theorem sample_empty_KeyError:
  "sample example_pickle (buffer 3 False) in_turn 1 empty_server = Some (Inl KeyError, empty_server)"
  by (simp add: sample_def num_transitions_eq buffer_def empty_server_def)

subsection \<open>The mean reward\<close>






end
